theory Spec2Isabelle
  imports Main
begin

section \<open>Text helpers of the Python runtime\<close>

text \<open>
  Statement lines are Python \<open>str\<close> values. The model covers text of the code points
  0 to 255: a character is a \<open>char\<close>, read as its code point. There \<open>str.lower\<close> maps
  \<open>A\<close>..\<open>Z\<close> (65 to 90) and the capital letters 192 to 214 and 216 to 222 to the letter
  32 places on and leaves every other character alone, and the whitespace that
  \<open>str.strip\<close> removes, \<open>str.isspace\<close>, is the code points 9 to 13, 28 to 32, 133
  and 160.
\<close>

definition lower_char :: "char \<Rightarrow> char" where
  "lower_char c =
     (let n = (of_char c :: nat) in
      if (65 \<le> n \<and> n \<le> 90) \<or> (192 \<le> n \<and> n \<le> 214) \<or> (216 \<le> n \<and> n \<le> 222)
      then char_of (n + 32) else c)"

definition lower :: "string \<Rightarrow> string" where
  "lower s = map lower_char s"

definition isspace :: "char \<Rightarrow> bool" where
  "isspace c =
     (let n = (of_char c :: nat) in
      (9 \<le> n \<and> n \<le> 13) \<or> (28 \<le> n \<and> n \<le> 32) \<or> n = 133 \<or> n = 160)"

definition strip :: "string \<Rightarrow> string" where
  "strip s = rev (dropWhile isspace (rev (dropWhile isspace s)))"

definition startswith :: "string \<Rightarrow> string \<Rightarrow> bool" where
  "startswith s sep = (take (length sep) s = sep)"

text \<open>\<open>find_sub sep s\<close> is \<open>s.find(sep)\<close>: the index of the first occurrence, if any.\<close>

fun find_sub :: "string \<Rightarrow> string \<Rightarrow> nat option" where
  "find_sub sep [] = (if sep = [] then Some 0 else None)"
| "find_sub sep (c # cs) =
     (if startswith (c # cs) sep then Some 0 else map_option Suc (find_sub sep cs))"

text \<open>\<open>sep in s\<close>.\<close>

definition contains :: "string \<Rightarrow> string \<Rightarrow> bool" where
  "contains s sep = (find_sub sep s \<noteq> None)"

text \<open>\<open>s.split(sep, 1)[0]\<close>: the text before the first \<open>sep\<close>, all of \<open>s\<close> without one.\<close>

definition split_head :: "string \<Rightarrow> string \<Rightarrow> string" where
  "split_head s sep = (case find_sub sep s of None \<Rightarrow> s | Some i \<Rightarrow> take i s)"

section \<open>Preference merge (\<open>worker\<close> in \<open>send_message\<close>)\<close>

text \<open>
  \<^verbatim>\<open>
  def pref_key(line):
      low = line.lower()
      if ' is ' in low:
          return low.split(' is ', 1)[0].strip()
      return low
  \<close>
\<close>

definition pref_key :: "string \<Rightarrow> string" where
  "pref_key ln =
     (let low = lower ln in
      if contains low '' is '' then strip (split_head low '' is '') else low)"

text \<open>
  A stored preference is \<open>{'line': str, 'ts': int}\<close>; \<open>load_prefs_list\<close> returns entries
  of exactly this shape.
\<close>

record pref_entry =
  line :: string
  ts :: int

text \<open>
  \<open>int(time.time())\<close> is read once for each entry that needs a timestamp. The clock is
  the sequence of its readings, and the state counts how many were taken.
\<close>

type_synonym clock = "nat \<Rightarrow> int"

record merge_state =
  keys :: "string list"
  mapping :: "string \<rightharpoonup> pref_entry"
  reads :: nat

definition init_state :: merge_state where
  "init_state = \<lparr>keys = [], mapping = Map.empty, reads = 0\<rparr>"

text \<open>
  The body of the loop over the stored entries: blank lines are skipped, of several
  entries with one key the first is kept, and a timestamp of 0 is replaced by the time.
\<close>

definition add_existing :: "clock \<Rightarrow> merge_state \<Rightarrow> pref_entry \<Rightarrow> merge_state" where
  "add_existing clk s item =
     (let ln = strip (line item) in
      if ln = [] then s
      else
        let k = pref_key ln in
        if mapping s k \<noteq> None then s
        else if ts item \<noteq> 0 then
          s\<lparr>keys := keys s @ [k], mapping := (mapping s)(k \<mapsto> \<lparr>line = ln, ts = ts item\<rparr>)\<rparr>
        else
          s\<lparr>keys := keys s @ [k],
            mapping := (mapping s)(k \<mapsto> \<lparr>line = ln, ts = clk (reads s)\<rparr>),
            reads := Suc (reads s)\<rparr>)"

text \<open>
  The body of the loop over the new lines. \<open>keys.remove(k)\<close> deletes the first
  occurrence; a \<open>ValueError\<close> of it is swallowed, as \<open>remove1\<close> leaves a list without
  \<open>k\<close> alone.
\<close>

definition apply_new :: "clock \<Rightarrow> merge_state \<Rightarrow> string \<Rightarrow> merge_state" where
  "apply_new clk s nl =
     (let k = pref_key nl;
          entry = \<lparr>line = nl, ts = clk (reads s)\<rparr>;
          ks = (if mapping s k \<noteq> None then remove1 k (keys s) else keys s)
      in s\<lparr>keys := ks @ [k], mapping := (mapping s)(k \<mapsto> entry), reads := Suc (reads s)\<rparr>)"

text \<open>
  \<open>final = [mapping[k] for k in keys]\<close>; a missing key raises \<open>KeyError\<close>, which the
  enclosing handler swallows, so that nothing is saved: the value \<open>None\<close>.
\<close>

fun rebuild :: "(string \<rightharpoonup> pref_entry) \<Rightarrow> string list \<Rightarrow> pref_entry list option" where
  "rebuild m [] = Some []"
| "rebuild m (k # ks) =
     (case m k of
        None \<Rightarrow> None
      | Some e \<Rightarrow> (case rebuild m ks of None \<Rightarrow> None | Some es \<Rightarrow> Some (e # es)))"

text \<open>
  \<open>while len(final) > int(limit): final.pop(0)\<close>. The loop runs only under
  \<open>limit >= 0\<close>, so the list it pops from is never empty; an \<open>IndexError\<close> of
  \<open>pop\<close> would be swallowed by the handler around the loop and leave the empty list.
\<close>

function drop_oldest :: "int \<Rightarrow> 'a list \<Rightarrow> 'a list" where
  "drop_oldest limit final =
     (if int (length final) > limit
      then (case final of [] \<Rightarrow> [] | x # rest \<Rightarrow> drop_oldest limit rest)
      else final)"
  by pat_completeness auto
termination
  by (relation "measure (\<lambda>(limit, final). length final)") auto

declare drop_oldest.simps [simp del]

text \<open>
  \<open>if isinstance(limit, int) and limit >= 0\<close>: the limit is an \<open>int\<close> by its type here
  (\<open>PREFS_LIMIT\<close> is set from \<open>int(...)\<close> or the default 20 everywhere).
\<close>

definition enforce_limit :: "int \<Rightarrow> 'a list \<Rightarrow> 'a list" where
  "enforce_limit limit final = (if limit \<ge> 0 then drop_oldest limit final else final)"

text \<open>
  \<open>new_lines = [l.strip() for l in extracted.splitlines() if l.strip()]\<close>, from the
  lines that \<open>splitlines\<close> gives.
\<close>

definition new_lines :: "string list \<Rightarrow> string list" where
  "new_lines raw = map strip (filter (\<lambda>l. strip l \<noteq> []) raw)"

text \<open>The loop over the stored entries, from the empty \<open>keys\<close> and \<open>mapping\<close>.\<close>

definition scan_existing :: "clock \<Rightarrow> pref_entry list \<Rightarrow> merge_state" where
  "scan_existing clk existing = foldl (add_existing clk) init_state existing"

text \<open>The two loops and the rebuilt list, oldest to newest, before the limit applies.\<close>

definition merged_order :: "clock \<Rightarrow> pref_entry list \<Rightarrow> string list \<Rightarrow> pref_entry list option" where
  "merged_order clk existing nls =
     (let s1 = scan_existing clk existing;
          s2 = foldl (apply_new clk) s1 nls
      in rebuild (mapping s2) (keys s2))"

text \<open>The list handed to \<open>save_prefs_list\<close>; \<open>None\<close> when an exception prevented it.\<close>

definition merge_prefs ::
  "clock \<Rightarrow> int \<Rightarrow> pref_entry list \<Rightarrow> string list \<Rightarrow> pref_entry list option" where
  "merge_prefs clk limit existing nls =
     map_option (enforce_limit limit) (merged_order clk existing nls)"

text \<open>
  The reading of "last write wins" that the merge is compared with: of the lines of one
  batch that share a key only the last stays, at the place of that last line.
\<close>

fun spec_last_write_wins :: "string list \<Rightarrow> string list" where
  "spec_last_write_wins [] = []"
| "spec_last_write_wins (nl # rest) =
     (if pref_key nl \<in> set (map pref_key rest) then spec_last_write_wins rest
      else nl # spec_last_write_wins rest)"

text \<open>
  The stored lines that a merge without new lines keeps, read off the stored list: the
  lines are stripped, blank ones are left out, and of several lines with one key the
  first stays. \<open>seen\<close> holds the keys met so far.
\<close>

fun spec_first_per_key :: "string list \<Rightarrow> string list \<Rightarrow> string list" where
  "spec_first_per_key seen [] = []"
| "spec_first_per_key seen (l # ls) =
     (if pref_key l \<in> set seen then spec_first_per_key seen ls
      else l # spec_first_per_key (pref_key l # seen) ls)"

definition spec_stored_lines :: "pref_entry list \<Rightarrow> string list" where
  "spec_stored_lines existing =
     spec_first_per_key [] (filter (\<lambda>l. l \<noteq> []) (map (\<lambda>e. strip (line e)) existing))"

text \<open>Invariants of the two loops.\<close>

definition wf_state :: "merge_state \<Rightarrow> bool" where
  "wf_state s \<longleftrightarrow>
     distinct (keys s) \<and> dom (mapping s) = set (keys s) \<and>
     (\<forall>k e. mapping s k = Some e \<longrightarrow> pref_key (line e) = k)"

definition clean_state :: "merge_state \<Rightarrow> bool" where
  "clean_state s \<longleftrightarrow>
     (\<forall>k e. mapping s k = Some e \<longrightarrow> line e \<noteq> [] \<and> strip (line e) = line e)"

section \<open>Credential bootstrap selector (\<open>build_main_window\<close>)\<close>

datatype prompt = PromptApiKey | PromptEndpoint

text \<open>\<open>not v\<close> for a value that is \<open>None\<close> or a \<open>str\<close>.\<close>

definition falsy :: "string option \<Rightarrow> bool" where
  "falsy v = (case v of None \<Rightarrow> True | Some x \<Rightarrow> x = [])"

text \<open>
  Which prompt function the startup code calls, if any. \<open>use_local\<close> is
  \<open>'use_local_var' in globals() and use_local_var.get()\<close>, \<open>saved_key\<close> and \<open>saved_ep\<close>
  are \<open>get_saved_api_key()\<close> and \<open>get_saved_endpoint()\<close>, and \<open>last_del\<close> is the
  variable \<open>last\<close>, \<open>loaded_meta.get('last_credential_deleted')\<close>. Both prompt functions swallow every
  exception, so the handler that would fall back from the key prompt to the endpoint
  prompt never runs.
\<close>

definition startup_prompt ::
  "bool \<Rightarrow> string option \<Rightarrow> string option \<Rightarrow> string option \<Rightarrow> prompt option" where
  "startup_prompt use_local saved_key saved_ep last_del =
     (if falsy saved_key \<and> falsy saved_ep then
        (if last_del = Some ''api_key'' then Some PromptApiKey
         else if last_del = Some ''server_endpoint'' then Some PromptEndpoint
         else Some PromptApiKey)
      else if use_local then
        (if falsy saved_key then Some PromptApiKey else None)
      else
        (if falsy saved_ep then Some PromptEndpoint else None))"

section \<open>Personality presets\<close>

text \<open>The eight \<open>IntVar\<close>s of the sliders, with the values \<open>build_main_window\<close> gives them.\<close>

record sliders =
  friendliness :: int
  professionalism :: int
  profanity :: int
  age :: int
  gender :: int
  humor :: int
  sarcasm :: int
  introversion :: int

definition initial_sliders :: sliders where
  "initial_sliders =
     \<lparr>friendliness = 2, professionalism = 1, profanity = 0, age = 30, gender = 1,
      humor = 0, sarcasm = 0, introversion = 1\<rparr>"

type_synonym preset = "int \<times> int \<times> int \<times> int \<times> int \<times> int \<times> int \<times> int"

definition DEFAULT_PRESETS :: "(string \<times> preset) list" where
  "DEFAULT_PRESETS =
     [(''Default AI'', (2, 1, 0, 30, 1, 0, 0, 1)),
      (''Helpful Professional'', (2, 2, 0, 35, 1, 0, 0, 1)),
      (''Casual Friendly'', (3, 0, 0, 25, 1, 1, 0, 1)),
      (''Playful Sarcastic'', (2, 0, 1, 18, 1, 2, 2, 1)),
      (''Child-Friendly'', (3, 1, 0, 12, 1, 0, 0, 2)),
      (''Stoic Professional'', (1, 2, 0, 40, 1, 0, 0, 0)),
      (''Sailor-Mouth'', (0, 0, 2, 30, 1, 1, 2, 0))]"

text \<open>
  The parsed content of a file of \<open>personalities/\<close>: a bare list, an object with a
  \<open>values\<close> list, an object whose \<open>values\<close> is a text, or anything else (no JSON,
  another shape, or an element that \<open>int()\<close> rejects). The elements of a list are taken
  as integers, as the format states.
\<close>

datatype preset_file =
  BareList "int list" | ValuesObject "int list" | ValuesText string | OtherContent

text \<open>\<open>int(x)\<close> for a text \<open>x\<close> of one character: a decimal digit, or \<open>ValueError\<close>.\<close>

definition digit_value :: "char \<Rightarrow> int option" where
  "digit_value c =
     (let n = (of_char c :: nat) in if 48 \<le> n \<and> n \<le> 57 then Some (int n - 48) else None)"

text \<open>
  \<open>if vals and len(vals) >= 8\<close> and then \<open>int(x) for x in vals[:8]\<close>: the first eight
  values, when there are eight.
\<close>

fun first8 :: "int list \<Rightarrow> preset option" where
  "first8 (v0 # v1 # v2 # v3 # v4 # v5 # v6 # v7 # _) = Some (v0, v1, v2, v3, v4, v5, v6, v7)"
| "first8 _ = None"

text \<open>
  The values a preset file yields; \<open>None\<close> for a missing or unusable file. A text of
  fewer than eight characters gives fewer than eight values, which \<open>first8\<close> refuses as
  \<open>len(vals) >= 8\<close> does.
\<close>

definition file_preset :: "preset_file option \<Rightarrow> preset option" where
  "file_preset f =
     (case f of
        None \<Rightarrow> None
      | Some (BareList vals) \<Rightarrow> first8 vals
      | Some (ValuesObject vals) \<Rightarrow> first8 vals
      | Some (ValuesText txt) \<Rightarrow>
          (case those (map digit_value (take 8 txt)) of
             None \<Rightarrow> None
           | Some vals \<Rightarrow> first8 vals)
      | Some OtherContent \<Rightarrow> None)"

text \<open>
  The eight \<open>set\<close> calls as the built-in branch at startup and \<open>apply_preset\<close> of the
  Personality window make them.
\<close>

fun set_sliders :: "preset \<Rightarrow> sliders \<Rightarrow> sliders" where
  "set_sliders (v0, v1, v2, v3, v4, v5, v6, v7) s =
     s\<lparr>friendliness := v0, professionalism := v1, profanity := v2, age := v3,
       gender := v4, humor := v5, sarcasm := v6, introversion := v7\<rparr>"

text \<open>
  The eight \<open>set\<close> calls of the startup branch for a file of \<open>personalities/\<close>: the
  fifth call is \<open>friendliness_var.set(vals[4])\<close>.
\<close>

fun set_sliders_from_file :: "preset \<Rightarrow> sliders \<Rightarrow> sliders" where
  "set_sliders_from_file (v0, v1, v2, v3, v4, v5, v6, v7) s =
     s\<lparr>friendliness := v0, professionalism := v1, profanity := v2, age := v3,
       friendliness := v4, humor := v5, sarcasm := v6, introversion := v7\<rparr>"

text \<open>
  The eight \<open>set\<close> calls of the startup fallback to \<open>'Default AI'\<close>: the third call is
  \<open>professionalism_var.set(vals[2])\<close>.
\<close>

fun set_sliders_fallback :: "preset \<Rightarrow> sliders \<Rightarrow> sliders" where
  "set_sliders_fallback (v0, v1, v2, v3, v4, v5, v6, v7) s =
     s\<lparr>friendliness := v0, professionalism := v1, professionalism := v2, age := v3,
       gender := v4, humor := v5, sarcasm := v6, introversion := v7\<rparr>"

text \<open>
  Startup: \<open>last_selected\<close> comes from \<open>presets.json\<close>, \<open>personalities\<close> maps a preset
  name to the content of \<open>personalities/<name>.json\<close>.
\<close>

definition startup_apply_preset ::
  "string option \<Rightarrow> (string \<rightharpoonup> preset_file) \<Rightarrow> sliders \<Rightarrow> sliders" where
  "startup_apply_preset last_selected personalities s =
     (case last_selected of
        None \<Rightarrow> s
      | Some name \<Rightarrow>
          if name = [] then s
          else
            (case map_of DEFAULT_PRESETS name of
               Some vals \<Rightarrow> set_sliders vals s
             | None \<Rightarrow>
                 (case file_preset (personalities name) of
                    Some vals \<Rightarrow> set_sliders_from_file vals s
                  | None \<Rightarrow>
                      (case map_of DEFAULT_PRESETS ''Default AI'' of
                         Some vals \<Rightarrow> set_sliders_fallback vals s
                       | None \<Rightarrow> s))))"

text \<open>
  The \<open>presets\<close> dictionary of the Personality window: the built-in presets, overwritten
  by every usable file of \<open>personalities/\<close>.
\<close>

definition window_presets :: "(string \<rightharpoonup> preset_file) \<Rightarrow> string \<rightharpoonup> preset" where
  "window_presets personalities name =
     (case file_preset (personalities name) of
        Some vals \<Rightarrow> Some vals
      | None \<Rightarrow> map_of DEFAULT_PRESETS name)"

definition apply_preset :: "(string \<rightharpoonup> preset) \<Rightarrow> string \<Rightarrow> sliders \<Rightarrow> sliders" where
  "apply_preset presets name s =
     (case presets name of None \<Rightarrow> s | Some vals \<Rightarrow> set_sliders vals s)"

section \<open>Persisted settings (\<open>save_settings\<close>)\<close>

datatype jval =
  JNull | JBool bool | JInt int | JStr string | JArr "jval list" | JObj "(string \<times> jval) list"

text \<open>What \<open>settings.json\<close> is when \<open>save_settings\<close> opens it.\<close>

datatype settings_file = NoFile | Unreadable | Parsed jval

fun truthy :: "jval \<Rightarrow> bool" where
  "truthy JNull = False"
| "truthy (JBool b) = b"
| "truthy (JInt n) = (n \<noteq> 0)"
| "truthy (JStr s) = (s \<noteq> [])"
| "truthy (JArr xs) = (xs \<noteq> [])"
| "truthy (JObj kvs) = (kvs \<noteq> [])"

datatype py_error = TypeError

text \<open>
  \<open>data = json.load(sf) or {}\<close>, and \<open>{}\<close> for a missing or unreadable file. Of a
  repeated key \<open>json.load\<close> keeps the last value. A value that is true and no object
  makes the first assignment \<open>data['use_local_ai'] = ...\<close> raise \<open>TypeError\<close>.
\<close>

definition load_data :: "settings_file \<Rightarrow> py_error + (string \<rightharpoonup> jval)" where
  "load_data f =
     (case f of
        NoFile \<Rightarrow> Inr Map.empty
      | Unreadable \<Rightarrow> Inr Map.empty
      | Parsed v \<Rightarrow>
          if \<not> truthy v then Inr Map.empty
          else (case v of JObj kvs \<Rightarrow> Inr (map_of (rev kvs)) | _ \<Rightarrow> Inl TypeError))"

text \<open>A credential argument: \<open>None\<close> leaves the field, \<open>''\<close> pops it, a text stores it.\<close>

definition store_or_pop :: "string \<Rightarrow> string option \<Rightarrow> (string \<rightharpoonup> jval) \<Rightarrow> (string \<rightharpoonup> jval)" where
  "store_or_pop field arg data =
     (case arg of
        None \<Rightarrow> data
      | Some v \<Rightarrow> if v \<noteq> [] then data(field \<mapsto> JStr v) else data(field := None))"

definition record_deleted :: "int \<Rightarrow> string option \<Rightarrow> (string \<rightharpoonup> jval) \<Rightarrow> (string \<rightharpoonup> jval)" where
  "record_deleted now last_deleted data =
     (case last_deleted of
        None \<Rightarrow> data
      | Some v \<Rightarrow>
          if v \<noteq> [] then
            data(''last_credential_deleted'' \<mapsto> JStr v,
                 ''last_credential_deleted_ts'' \<mapsto> JInt now)
          else
            data(''last_credential_deleted'' := None, ''last_credential_deleted_ts'' := None))"

definition store_opt :: "string \<Rightarrow> jval option \<Rightarrow> (string \<rightharpoonup> jval) \<Rightarrow> (string \<rightharpoonup> jval)" where
  "store_opt field arg data = (case arg of None \<Rightarrow> data | Some v \<Rightarrow> data(field \<mapsto> v))"

text \<open>
  The dictionary that \<open>save_settings\<close> hands to \<open>_atomic_write\<close>, or the exception that
  its handler swallows, after which nothing is written. \<open>now\<close> is \<open>int(time.time())\<close>.
\<close>

definition save_settings ::
  "settings_file \<Rightarrow> int \<Rightarrow> bool \<Rightarrow> string option \<Rightarrow> string option \<Rightarrow> string option \<Rightarrow>
   int option \<Rightarrow> int option \<Rightarrow> string option \<Rightarrow> py_error + (string \<rightharpoonup> jval)" where
  "save_settings file now use_local api_key endpoint last_deleted
       ai_history_lines pref_memory_lines ai_model =
     (case load_data file of
        Inl e \<Rightarrow> Inl e
      | Inr data \<Rightarrow>
          Inr (store_opt ''ai_model'' (map_option JStr ai_model)
              (store_opt ''pref_memory_lines'' (map_option JInt pref_memory_lines)
              (store_opt ''ai_history_lines'' (map_option JInt ai_history_lines)
              (record_deleted now last_deleted
              (store_or_pop ''server_endpoint'' endpoint
              (store_or_pop ''openai_api_key'' api_key
              (data(''use_local_ai'' \<mapsto> JBool use_local)))))))))"

text \<open>The fields of \<open>settings.json\<close> that \<open>save_settings\<close> can write.\<close>

definition settings_fields :: "string list" where
  "settings_fields =
     [''use_local_ai'', ''openai_api_key'', ''server_endpoint'', ''last_credential_deleted'',
      ''last_credential_deleted_ts'', ''ai_history_lines'', ''pref_memory_lines'', ''ai_model'']"

section \<open>Properties of the preference merge\<close>

subsection \<open>The truncation loop\<close>

lemma drop_oldest_eq_drop:
  "0 \<le> limit \<Longrightarrow> drop_oldest limit xs = drop (length xs - nat limit) xs"
proof (induction limit xs rule: drop_oldest.induct)
  case (1 limit final)
  show ?case
  proof (cases final)
    case Nil
    then show ?thesis by (subst drop_oldest.simps) simp
  next
    case (Cons x rest)
    show ?thesis
    proof (cases "int (length final) > limit")
      case True
      then have "drop_oldest limit final = drop_oldest limit rest"
        using Cons by (subst drop_oldest.simps) simp
      also have "\<dots> = drop (length rest - nat limit) rest"
        using 1 True Cons by simp
      also have "\<dots> = drop (length final - nat limit) final"
        using True Cons "1.prems" by (simp add: Suc_diff_le nat_le_iff)
      finally show ?thesis .
    next
      case False
      then show ?thesis using "1.prems" by (subst drop_oldest.simps) simp
    qed
  qed
qed

subsection \<open>Invariants of the two loops\<close>

lemma wf_init: "wf_state init_state"
  by (simp add: wf_state_def init_state_def)

lemma wf_add_existing: "wf_state s \<Longrightarrow> wf_state (add_existing clk s item)"
  by (auto simp: wf_state_def add_existing_def Let_def)

lemma wf_apply_new: "wf_state s \<Longrightarrow> wf_state (apply_new clk s nl)"
  by (auto simp: wf_state_def apply_new_def Let_def)

lemma wf_foldl_existing: "wf_state s \<Longrightarrow> wf_state (foldl (add_existing clk) s xs)"
  by (induction xs arbitrary: s) (simp_all add: wf_add_existing)

lemma wf_foldl_new: "wf_state s \<Longrightarrow> wf_state (foldl (apply_new clk) s xs)"
  by (induction xs arbitrary: s) (simp_all add: wf_apply_new)

lemma rebuild_total: "set ks \<subseteq> dom m \<Longrightarrow> rebuild m ks = Some (map (\<lambda>k. the (m k)) ks)"
  by (induction ks) auto

lemma rebuild_wf:
  "wf_state s \<Longrightarrow> rebuild (mapping s) (keys s) = Some (map (\<lambda>k. the (mapping s k)) (keys s))"
  by (rule rebuild_total) (simp add: wf_state_def)

lemma wf_key_of_entry:
  "wf_state s \<Longrightarrow> k \<in> set (keys s) \<Longrightarrow> pref_key (line (the (mapping s k))) = k"
  by (auto simp: wf_state_def dom_def set_eq_iff)

lemma keys_of_rebuilt:
  "wf_state s \<Longrightarrow> map (\<lambda>e. pref_key (line e)) (map (\<lambda>k. the (mapping s k)) (keys s)) = keys s"
  by (simp add: map_idI wf_key_of_entry o_def)

lemma keys_apply_new:
  "wf_state s \<Longrightarrow> keys (apply_new clk s nl) = filter (\<lambda>k. k \<noteq> pref_key nl) (keys s) @ [pref_key nl]"
proof -
  assume wf: "wf_state s"
  then have d: "distinct (keys s)" and dm: "dom (mapping s) = set (keys s)"
    by (simp_all add: wf_state_def)
  show ?thesis
  proof (cases "mapping s (pref_key nl)")
    case None
    then have "pref_key nl \<notin> dom (mapping s)" by (simp add: domIff)
    then have "pref_key nl \<notin> set (keys s)" using dm by simp
    then have "filter (\<lambda>k. k \<noteq> pref_key nl) (keys s) = keys s" by (auto simp: filter_id_conv)
    then show ?thesis using None by (simp add: apply_new_def Let_def)
  next
    case (Some e)
    have "remove1 (pref_key nl) (keys s) = filter (\<lambda>k. k \<noteq> pref_key nl) (keys s)"
      using d by (auto simp: distinct_remove1_removeAll removeAll_filter_not_eq intro: filter_cong)
    then show ?thesis using Some by (simp add: apply_new_def Let_def)
  qed
qed

lemma keys_foldl_new:
  "wf_state s \<Longrightarrow>
   keys (foldl (apply_new clk) s nls) =
     filter (\<lambda>k. k \<notin> set (map pref_key nls)) (keys s) @ remdups (map pref_key nls)"
proof (induction nls arbitrary: s)
  case Nil
  then show ?case by simp
next
  case (Cons nl nls)
  have "keys (foldl (apply_new clk) (apply_new clk s nl) nls) =
        filter (\<lambda>k. k \<notin> set (map pref_key nls)) (keys (apply_new clk s nl)) @ remdups (map pref_key nls)"
    using Cons.IH [OF wf_apply_new [OF Cons.prems]] .
  then show ?case
    by (auto simp: keys_apply_new [OF Cons.prems] intro: filter_cong)
qed

lemma mapping_apply_new_other:
  "k \<noteq> pref_key nl \<Longrightarrow> mapping (apply_new clk s nl) k = mapping s k"
  by (simp add: apply_new_def Let_def)

lemma mapping_foldl_new_other:
  "k \<notin> set (map pref_key nls) \<Longrightarrow> mapping (foldl (apply_new clk) s nls) k = mapping s k"
  by (induction nls arbitrary: s) (auto simp: mapping_apply_new_other)

lemma mapping_foldl_new_line:
  "k \<in> set (map pref_key nls) \<Longrightarrow>
   \<exists>e. mapping (foldl (apply_new clk) s nls) k = Some e \<and>
       line e = last (filter (\<lambda>nl. pref_key nl = k) nls)"
proof (induction nls arbitrary: s rule: rev_induct)
  case Nil
  then show ?case by simp
next
  case (snoc nl nls)
  show ?case
  proof (cases "pref_key nl = k")
    case True
    then show ?thesis by (simp add: apply_new_def Let_def)
  next
    case False
    then have "k \<in> set (map pref_key nls)" using snoc.prems by auto
    from snoc.IH [OF this, of s] False show ?thesis
      by (auto simp: mapping_apply_new_other)
  qed
qed

lemma last_per_key_eq:
  "map (\<lambda>k. last (filter (\<lambda>nl. pref_key nl = k) nls)) (remdups (map pref_key nls)) =
   spec_last_write_wins nls"
proof (induction nls)
  case Nil
  then show ?case by simp
next
  case (Cons nl rest)
  have later: "last (filter (\<lambda>x. pref_key x = k) (nl # rest)) = last (filter (\<lambda>x. pref_key x = k) rest)"
    if "k \<in> set (map pref_key rest)" for k
  proof -
    from that have "filter (\<lambda>x. pref_key x = k) rest \<noteq> []"
      by (auto simp: filter_empty_conv)
    then show ?thesis by simp
  qed
  have tail_eq: "map (\<lambda>k. last (filter (\<lambda>x. pref_key x = k) (nl # rest))) (remdups (map pref_key rest)) =
        map (\<lambda>k. last (filter (\<lambda>x. pref_key x = k) rest)) (remdups (map pref_key rest))"
    by (rule map_cong [OF refl]) (simp add: later del: filter.simps)
  show ?case
  proof (cases "pref_key nl \<in> set (map pref_key rest)")
    case True
    then show ?thesis using tail_eq Cons.IH by (simp del: filter.simps)
  next
    case False
    then have "filter (\<lambda>x. pref_key x = pref_key nl) rest = []"
      by (auto simp: filter_empty_conv image_iff)
    then show ?thesis using False tail_eq Cons.IH by (simp del: filter.simps) simp
  qed
qed

lemma wf_scan_existing: "wf_state (scan_existing clk existing)"
  by (simp add: scan_existing_def wf_foldl_existing wf_init)

lemma merged_order_Nil:
  "merged_order clk existing [] =
     Some (map (\<lambda>k. the (mapping (scan_existing clk existing) k)) (keys (scan_existing clk existing)))"
  using rebuild_wf [OF wf_scan_existing, of clk existing]
  by (simp add: merged_order_def scan_existing_def Let_def)

lemma merged_order_total:
  "merged_order clk existing nls =
     Some (map (\<lambda>k. the (mapping (foldl (apply_new clk) (scan_existing clk existing) nls) k))
            (keys (foldl (apply_new clk) (scan_existing clk existing) nls)))"
  using rebuild_wf [OF wf_foldl_new [OF wf_scan_existing], of clk clk existing nls]
  by (simp add: merged_order_def scan_existing_def Let_def)

lemma merged_order_shape:
  "\<exists>old newp.
     merged_order clk existing [] = Some old \<and>
     merged_order clk existing nls =
       Some (filter (\<lambda>e. pref_key (line e) \<notin> set (map pref_key nls)) old @ newp) \<and>
     map line newp = spec_last_write_wins nls"
proof -
  define s1 where "s1 = scan_existing clk existing"
  define s2 where "s2 = foldl (apply_new clk) s1 nls"
  define old where "old = map (\<lambda>k. the (mapping s1 k)) (keys s1)"
  define newp where "newp = map (\<lambda>k. the (mapping s2 k)) (remdups (map pref_key nls))"
  let ?untouched = "\<lambda>k. k \<notin> set (map pref_key nls)"
  have wf1: "wf_state s1" by (simp add: s1_def wf_scan_existing)
  have old_eq: "merged_order clk existing [] = Some old"
    by (simp add: merged_order_Nil old_def s1_def)
  have ks2: "keys s2 = filter ?untouched (keys s1) @ remdups (map pref_key nls)"
    unfolding s2_def by (rule keys_foldl_new [OF wf1])
  have "map (\<lambda>k. the (mapping s2 k)) (filter ?untouched (keys s1)) =
        map (\<lambda>k. the (mapping s1 k)) (filter ?untouched (keys s1))"
    by (rule map_cong [OF refl]) (simp add: s2_def mapping_foldl_new_other)
  also have "\<dots> = filter (\<lambda>e. ?untouched (pref_key (line e))) old"
    unfolding old_def filter_map o_def
    by (rule arg_cong [where f = "map (\<lambda>k. the (mapping s1 k))"], rule filter_cong [OF refl])
       (simp add: wf_key_of_entry [OF wf1])
  finally have part1: "map (\<lambda>k. the (mapping s2 k)) (filter ?untouched (keys s1)) =
        filter (\<lambda>e. ?untouched (pref_key (line e))) old" .
  have final_eq: "merged_order clk existing nls =
        Some (filter (\<lambda>e. ?untouched (pref_key (line e))) old @ newp)"
    using merged_order_total [of clk existing nls] part1
    by (simp add: s2_def [symmetric] s1_def [symmetric] ks2 newp_def)
  have "map line newp =
        map (\<lambda>k. last (filter (\<lambda>nl. pref_key nl = k) nls)) (remdups (map pref_key nls))"
    unfolding newp_def map_map o_def
  proof (rule map_cong [OF refl])
    fix k assume "k \<in> set (remdups (map pref_key nls))"
    then have "k \<in> set (map pref_key nls)" by simp
    from mapping_foldl_new_line [OF this, of clk s1]
    show "line (the (mapping s2 k)) = last (filter (\<lambda>nl. pref_key nl = k) nls)"
      by (auto simp: s2_def)
  qed
  then have "map line newp = spec_last_write_wins nls"
    by (simp add: last_per_key_eq)
  with old_eq final_eq show ?thesis by blast
qed

lemma last_spec_last_write_wins:
  "nls \<noteq> [] \<Longrightarrow> spec_last_write_wins nls \<noteq> [] \<and> last (spec_last_write_wins nls) = last nls"
  by (induction nls) auto

lemma merged_order_keys_distinct:
  "merged_order clk existing nls = Some final \<Longrightarrow> distinct (map (\<lambda>e. pref_key (line e)) final)"
proof -
  assume a: "merged_order clk existing nls = Some final"
  define s2 where "s2 = foldl (apply_new clk) (scan_existing clk existing) nls"
  have wf2: "wf_state s2" by (simp add: s2_def wf_foldl_new wf_scan_existing)
  from a have "final = map (\<lambda>k. the (mapping s2 k)) (keys s2)"
    by (simp add: merged_order_total s2_def)
  then have "map (\<lambda>e. pref_key (line e)) final = keys s2"
    using keys_of_rebuilt [OF wf2] by simp
  then show ?thesis using wf2 by (simp add: wf_state_def)
qed

lemma enforce_limit_eq_drop:
  "0 \<le> limit \<Longrightarrow> enforce_limit limit xs = drop (length xs - nat limit) xs"
  by (simp add: enforce_limit_def drop_oldest_eq_drop)

lemma enforce_limit_suffix: "\<exists>n. enforce_limit limit xs = drop n xs"
proof (cases "0 \<le> limit")
  case True
  then show ?thesis using enforce_limit_eq_drop by blast
next
  case False
  then have "enforce_limit limit xs = drop 0 xs" by (simp add: enforce_limit_def)
  then show ?thesis by blast
qed

subsection \<open>Stripped lines\<close>

lemma strip_idem: "strip (strip s) = strip s"
proof -
  define u where "u = dropWhile isspace s"
  define t where "t = rev (dropWhile isspace (rev u))"
  have t_strip: "strip s = t" by (simp add: strip_def t_def u_def)
  have tail_ok: "dropWhile isspace (rev t) = rev t"
    by (simp add: t_def)
  have head_ok: "dropWhile isspace t = t"
  proof (cases "t = []")
    case True
    then show ?thesis by simp
  next
    case False
    have "rev u = takeWhile isspace (rev u) @ dropWhile isspace (rev u)" by simp
    then have "u = rev (dropWhile isspace (rev u)) @ rev (takeWhile isspace (rev u))"
      by (metis rev_append rev_rev_ident)
    then have u_eq: "u = t @ rev (takeWhile isspace (rev u))" by (simp add: t_def)
    then have "hd u = hd t" using False by (metis hd_append2)
    moreover have "u \<noteq> []" using u_eq False by auto
    then have "\<not> isspace (hd u)" unfolding u_def by (rule hd_dropWhile)
    ultimately show ?thesis using False by (simp add: dropWhile_eq_self_iff)
  qed
  have "strip t = t" by (simp add: strip_def head_ok tail_ok)
  then show ?thesis by (simp add: t_strip)
qed

lemma clean_add_existing: "clean_state s \<Longrightarrow> clean_state (add_existing clk s item)"
  by (auto simp: clean_state_def add_existing_def Let_def strip_idem)

lemma clean_apply_new:
  "clean_state s \<Longrightarrow> nl \<noteq> [] \<Longrightarrow> strip nl = nl \<Longrightarrow> clean_state (apply_new clk s nl)"
  by (auto simp: clean_state_def apply_new_def Let_def)

lemma clean_foldl_existing: "clean_state s \<Longrightarrow> clean_state (foldl (add_existing clk) s xs)"
  by (induction xs arbitrary: s) (simp_all add: clean_add_existing)

lemma clean_foldl_new:
  "clean_state s \<Longrightarrow> \<forall>nl\<in>set nls. nl \<noteq> [] \<and> strip nl = nl \<Longrightarrow>
   clean_state (foldl (apply_new clk) s nls)"
  by (induction nls arbitrary: s) (simp_all add: clean_apply_new)

lemma merged_order_clean:
  assumes "\<forall>nl\<in>set nls. nl \<noteq> [] \<and> strip nl = nl"
    and "merged_order clk existing nls = Some final"
  shows "\<forall>e\<in>set final. line e \<noteq> [] \<and> strip (line e) = line e"
proof -
  define s2 where "s2 = foldl (apply_new clk) (scan_existing clk existing) nls"
  have wf2: "wf_state s2" by (simp add: s2_def wf_foldl_new wf_scan_existing)
  have "clean_state init_state" by (simp add: clean_state_def init_state_def)
  then have cl2: "clean_state s2"
    unfolding s2_def scan_existing_def
    by (intro clean_foldl_new clean_foldl_existing assms(1))
  from assms(2) have fin: "final = map (\<lambda>k. the (mapping s2 k)) (keys s2)"
    by (simp add: merged_order_total s2_def)
  show ?thesis
  proof
    fix e assume "e \<in> set final"
    then obtain k where k: "k \<in> set (keys s2)" and e: "e = the (mapping s2 k)"
      using fin by auto
    from k wf2 have "k \<in> dom (mapping s2)" by (simp add: wf_state_def)
    then obtain e' where "mapping s2 k = Some e'" by blast
    with cl2 e show "line e \<noteq> [] \<and> strip (line e) = line e"
      by (auto simp: clean_state_def)
  qed
qed

lemma add_existing_fresh:
  assumes "line e \<noteq> []" "strip (line e) = line e" "mapping s (pref_key (line e)) = None"
  shows "keys (add_existing clk s e) = keys s @ [pref_key (line e)]"
    and "\<exists>e'. mapping (add_existing clk s e) = (mapping s)(pref_key (line e) \<mapsto> e') \<and> line e' = line e"
  using assms by (auto simp: add_existing_def Let_def)

lemma foldl_existing_lines:
  assumes "wf_state s"
    and "\<forall>e\<in>set r. line e \<noteq> [] \<and> strip (line e) = line e"
    and "distinct (map (\<lambda>e. pref_key (line e)) r)"
    and "set (map (\<lambda>e. pref_key (line e)) r) \<inter> set (keys s) = {}"
  shows "map (\<lambda>k. line (the (mapping (foldl (add_existing clk) s r) k)))
             (keys (foldl (add_existing clk) s r)) =
         map (\<lambda>k. line (the (mapping s k))) (keys s) @ map line r"
  using assms
proof (induction r arbitrary: s)
  case Nil
  then show ?case by simp
next
  case (Cons e r)
  let ?k = "pref_key (line e)"
  let ?s' = "add_existing clk s e"
  from Cons.prems have fresh: "?k \<notin> set (keys s)" by auto
  with Cons.prems(1) have none: "mapping s ?k = None"
    by (auto simp: wf_state_def dom_def set_eq_iff)
  from Cons.prems(2) have cl: "line e \<noteq> []" "strip (line e) = line e" by simp_all
  have ks: "keys ?s' = keys s @ [?k]" by (rule add_existing_fresh(1) [OF cl none])
  obtain e' where m: "mapping ?s' = (mapping s)(?k \<mapsto> e')" and l: "line e' = line e"
    using add_existing_fresh(2) [OF cl none, of clk] by blast
  have wf': "wf_state ?s'" by (rule wf_add_existing [OF Cons.prems(1)])
  have disj: "set (map (\<lambda>e. pref_key (line e)) r) \<inter> set (keys ?s') = {}"
    using Cons.prems(3,4) by (auto simp: ks)
  have "map (\<lambda>k. line (the (mapping ?s' k))) (keys s) = map (\<lambda>k. line (the (mapping s k))) (keys s)"
    by (rule map_cong [OF refl]) (use fresh in \<open>auto simp: m\<close>)
  then have step: "map (\<lambda>k. line (the (mapping ?s' k))) (keys ?s') =
        map (\<lambda>k. line (the (mapping s k))) (keys s) @ [line e]"
    by (simp add: ks) (simp add: m l)
  from Cons.IH [OF wf' _ _ disj] Cons.prems(2,3) show ?case
    by (simp add: step)
qed

lemma merged_order_Nil_lines:
  assumes "\<forall>e\<in>set r. line e \<noteq> [] \<and> strip (line e) = line e"
    and "distinct (map (\<lambda>e. pref_key (line e)) r)"
  shows "\<exists>old. merged_order clk r [] = Some old \<and> map line old = map line r"
proof -
  have "map (\<lambda>k. line (the (mapping (scan_existing clk r) k))) (keys (scan_existing clk r)) =
        map (\<lambda>k. line (the (mapping init_state k))) (keys init_state) @ map line r"
    unfolding scan_existing_def
    by (rule foldl_existing_lines [OF wf_init assms]) (simp add: init_state_def)
  then show ?thesis
    by (simp add: merged_order_Nil init_state_def o_def)
qed

lemma filter_other_keys_snoc:
  assumes "distinct (map pref_key (ls @ [s]))"
  shows "filter (\<lambda>l. pref_key l \<notin> set (map pref_key [s])) (ls @ [s]) = ls"
proof -
  from assms have "\<forall>l\<in>set ls. pref_key l \<noteq> pref_key s" by (auto simp: image_iff)
  then have "filter (\<lambda>l. pref_key l \<noteq> pref_key s) ls = ls" by (simp add: filter_id_conv)
  then show ?thesis by simp
qed

lemma resubmit_lines:
  assumes "s \<noteq> []" "strip s = s" "1 \<le> limit"
  shows "\<exists>r1 r2. merge_prefs clk limit existing [s] = Some r1 \<and>
           merge_prefs clk' limit r1 [s] = Some r2 \<and>
           map line r2 = map line r1 \<and> r1 \<noteq> [] \<and> line (last r1) = s"
proof -
  obtain old newp where
    f1: "merged_order clk existing [s] =
           Some (filter (\<lambda>e. pref_key (line e) \<notin> set (map pref_key [s])) old @ newp)"
    and n1: "map line newp = spec_last_write_wins [s]"
    using merged_order_shape [of clk existing "[s]"] by blast
  define pre1 where "pre1 = filter (\<lambda>e. pref_key (line e) \<notin> set (map pref_key [s])) old @ newp"
  define r1 where "r1 = enforce_limit limit pre1"
  have m1: "merged_order clk existing [s] = Some pre1" using f1 by (simp add: pre1_def)
  have r1_ok: "merge_prefs clk limit existing [s] = Some r1"
    by (simp add: merge_prefs_def m1 r1_def)
  from n1 obtain e1 where newp: "newp = [e1]" and e1: "line e1 = s" by auto
  have pre1_ne: "pre1 \<noteq> []" and last1: "last pre1 = e1" by (simp_all add: pre1_def newp)
  have lim0: "0 \<le> limit" using assms(3) by simp
  define n where "n = length pre1 - nat limit"
  have r1_drop: "r1 = drop n pre1" by (simp add: r1_def n_def enforce_limit_eq_drop [OF lim0])
  have n_lt: "n < length pre1" using pre1_ne assms(3) by (cases pre1) (auto simp: n_def)
  have r1_ne: "r1 \<noteq> []" using n_lt by (simp add: r1_drop)
  have r1_last: "last r1 = e1" using n_lt last1 by (simp add: r1_drop last_drop)
  have r1_len: "int (length r1) \<le> limit" using lim0 by (simp add: r1_drop n_def)
  have d1: "distinct (map (\<lambda>e. pref_key (line e)) r1)"
    using merged_order_keys_distinct [OF m1] by (simp add: r1_drop drop_map [symmetric] distinct_drop)
  have "\<forall>e\<in>set pre1. line e \<noteq> [] \<and> strip (line e) = line e"
    by (rule merged_order_clean [OF _ m1]) (simp add: assms)
  then have c1: "\<forall>e\<in>set r1. line e \<noteq> [] \<and> strip (line e) = line e"
    unfolding r1_drop by (meson in_set_dropD)
  obtain old2 where o2: "merged_order clk' r1 [] = Some old2" and l2: "map line old2 = map line r1"
    using merged_order_Nil_lines [OF c1 d1] by blast
  obtain old2' newp2 where
    o2': "merged_order clk' r1 [] = Some old2'" and
    f2: "merged_order clk' r1 [s] =
           Some (filter (\<lambda>e. pref_key (line e) \<notin> set (map pref_key [s])) old2' @ newp2)"
    and n2: "map line newp2 = spec_last_write_wins [s]"
    using merged_order_shape [of clk' r1 "[s]"] by blast
  have same: "old2' = old2" using o2 o2' by simp
  define pre2 where "pre2 = filter (\<lambda>e. pref_key (line e) \<notin> set (map pref_key [s])) old2 @ newp2"
  have m2: "merged_order clk' r1 [s] = Some pre2" using f2 by (simp add: pre2_def same)
  have lines1: "map line r1 = map line (butlast r1) @ [s]"
    using r1_ne r1_last e1 by (metis append_butlast_last_id list.simps(8,9) map_append)
  have "distinct (map pref_key (map line r1))" using d1 by (simp add: o_def)
  then have dl: "distinct (map pref_key (map line (butlast r1) @ [s]))" by (simp only: lines1)
  have "map line (filter (\<lambda>e. pref_key (line e) \<notin> set (map pref_key [s])) old2) =
        filter (\<lambda>l. pref_key l \<notin> set (map pref_key [s])) (map line old2)"
    by (simp add: filter_map o_def)
  also have "\<dots> = map line (butlast r1)"
    unfolding l2 lines1 by (rule filter_other_keys_snoc [OF dl])
  finally have "map line pre2 = map line (butlast r1) @ [s]"
    using n2 by (simp add: pre2_def)
  then have lines2: "map line pre2 = map line r1" by (simp only: lines1)
  then have "length pre2 = length r1" by (metis length_map)
  then have "enforce_limit limit pre2 = pre2"
    using r1_len lim0 by (simp add: enforce_limit_eq_drop)
  then have r2_ok: "merge_prefs clk' limit r1 [s] = Some pre2"
    by (simp add: merge_prefs_def m2)
  from r1_ok r2_ok lines2 r1_ne r1_last e1 show ?thesis by blast
qed

text \<open>Beyond ASCII: a capital letter with an accent is lowered, a no-break space stripped.\<close>

lemma sample_latin1:
  "lower [CHR 0xC9, CHR ''t'', CHR 0xE9] = [CHR 0xE9, CHR ''t'', CHR 0xE9] \<and>
   pref_key [CHR ''a'', CHR 0xA0, CHR '' '', CHR ''i'', CHR ''s'', CHR '' '', CHR ''b''] = ''a''"
  by code_simp

lemma new_lines_clean: "\<forall>l\<in>set (new_lines raw). l \<noteq> [] \<and> strip l = l"
  by (auto simp: new_lines_def strip_idem)

subsection \<open>The retention limit\<close>

text \<open>
  C1: for every stored list, every batch of new lines and every limit that is a
  non-negative integer, the merge produces a list (no exception prevents it) whose length
  is at most the limit; with limit 0 the list is empty.
\<close>

theorem merge_length_within_limit:
  "0 \<le> limit \<Longrightarrow>
   \<exists>final. merge_prefs clk limit existing nls = Some final \<and>
     int (length final) \<le> limit \<and> (limit = 0 \<longrightarrow> final = [])"
proof -
  assume lim: "0 \<le> limit"
  obtain pre where pre: "merged_order clk existing nls = Some pre"
    by (simp add: merged_order_total)
  have "merge_prefs clk limit existing nls = Some (drop (length pre - nat limit) pre)"
    by (simp add: merge_prefs_def pre enforce_limit_eq_drop [OF lim])
  moreover have "int (length (drop (length pre - nat limit) pre)) \<le> limit"
    using lim by simp
  moreover have "limit = 0 \<longrightarrow> drop (length pre - nat limit) pre = []"
    by simp
  ultimately show ?thesis by blast
qed

theorem merge_length_within_limit_witness:
  "(0::int) \<le> 0 \<and>
   merge_prefs (\<lambda>n. 1000 + int n) 0 [\<lparr>line = ''pet is cat'', ts = 5\<rparr>] [''hue is red''] = Some []"
  using merge_length_within_limit
    [of 0 "\<lambda>n. 1000 + int n" "[\<lparr>line = ''pet is cat'', ts = 5\<rparr>]" "[''hue is red'']"]
  by auto

text \<open>
  C6: under a non-negative limit the merge keeps exactly the newest entries of the list
  it built: the result is that list without its first \<open>length - limit\<close> entries, in the
  same order, and it has exactly \<open>limit\<close> entries whenever the built list was longer.
\<close>

theorem truncation_keeps_newest:
  "0 \<le> limit \<Longrightarrow>
   \<exists>pre. merged_order clk existing nls = Some pre \<and>
     merge_prefs clk limit existing nls = Some (drop (length pre - nat limit) pre) \<and>
     (limit < int (length pre) \<longrightarrow> length (drop (length pre - nat limit) pre) = nat limit)"
proof -
  assume lim: "0 \<le> limit"
  obtain pre where pre: "merged_order clk existing nls = Some pre"
    by (simp add: merged_order_total)
  have "merge_prefs clk limit existing nls = Some (drop (length pre - nat limit) pre)"
    by (simp add: merge_prefs_def pre enforce_limit_eq_drop [OF lim])
  moreover have "limit < int (length pre) \<longrightarrow> length (drop (length pre - nat limit) pre) = nat limit"
    using lim by auto
  ultimately show ?thesis using pre by blast
qed

lemma sample_order:
  "merged_order (\<lambda>n. 1000 + int n)
     [\<lparr>line = ''pet is cat'', ts = 5\<rparr>, \<lparr>line = ''age is 30'', ts = 6\<rparr>] [''hue is red''] =
   Some [\<lparr>line = ''pet is cat'', ts = 5\<rparr>, \<lparr>line = ''age is 30'', ts = 6\<rparr>,
         \<lparr>line = ''hue is red'', ts = 1000\<rparr>]"
  by code_simp

theorem truncation_keeps_newest_witness:
  "(0::int) \<le> 2 \<and>
   merge_prefs (\<lambda>n. 1000 + int n) 2
     [\<lparr>line = ''pet is cat'', ts = 5\<rparr>, \<lparr>line = ''age is 30'', ts = 6\<rparr>] [''hue is red''] =
   Some [\<lparr>line = ''age is 30'', ts = 6\<rparr>, \<lparr>line = ''hue is red'', ts = 1000\<rparr>]"
  using truncation_keeps_newest
    [of 2 "\<lambda>n. 1000 + int n"
      "[\<lparr>line = ''pet is cat'', ts = 5\<rparr>, \<lparr>line = ''age is 30'', ts = 6\<rparr>]" "[''hue is red'']"]
  by (simp add: sample_order)

subsection \<open>One entry per key\<close>

text \<open>
  C4: the list that the merge produces holds at most one entry for each normalized key,
  whatever the stored list holds, several entries with one key included.
\<close>

theorem merge_one_entry_per_key:
  "\<exists>final. merge_prefs clk limit existing nls = Some final \<and>
     distinct (map (\<lambda>e. pref_key (line e)) final)"
proof -
  obtain pre where pre: "merged_order clk existing nls = Some pre"
    by (simp add: merged_order_total)
  obtain n where n: "enforce_limit limit pre = drop n pre"
    using enforce_limit_suffix by blast
  have "distinct (map (\<lambda>e. pref_key (line e)) (drop n pre))"
    using merged_order_keys_distinct [OF pre] by (simp add: drop_map [symmetric] distinct_drop)
  then show ?thesis by (simp add: merge_prefs_def pre n)
qed

lemma sample_duplicates:
  "merge_prefs (\<lambda>n. 1000 + int n) 5
     [\<lparr>line = ''Name is Al'', ts = 5\<rparr>, \<lparr>line = ''name is Bo'', ts = 6\<rparr>] [''hue is red''] =
   Some [\<lparr>line = ''Name is Al'', ts = 5\<rparr>, \<lparr>line = ''hue is red'', ts = 1000\<rparr>]"
  by code_simp

theorem merge_one_entry_per_key_witness:
  "merge_prefs (\<lambda>n. 1000 + int n) 5
     [\<lparr>line = ''Name is Al'', ts = 5\<rparr>, \<lparr>line = ''name is Bo'', ts = 6\<rparr>] [''hue is red''] =
   Some [\<lparr>line = ''Name is Al'', ts = 5\<rparr>, \<lparr>line = ''hue is red'', ts = 1000\<rparr>] \<and>
   distinct (map (\<lambda>e. pref_key (line e))
     [\<lparr>line = ''Name is Al'', ts = 5\<rparr>, \<lparr>line = ''hue is red'', ts = 1000\<rparr>])"
  using merge_one_entry_per_key
    [of "\<lambda>n. 1000 + int n" 5
      "[\<lparr>line = ''Name is Al'', ts = 5\<rparr>, \<lparr>line = ''name is Bo'', ts = 6\<rparr>]" "[''hue is red'']"]
  by (simp add: sample_duplicates)

subsection \<open>Replacement, relocation and last write wins\<close>

text \<open>The lines that the first loop keeps are the stored lines, first per key.\<close>

lemma add_existing_skip:
  "strip (line e) = [] \<or> mapping s (pref_key (strip (line e))) \<noteq> None \<Longrightarrow>
   add_existing clk s e = s"
  by (auto simp: add_existing_def Let_def)

lemma add_existing_new:
  assumes "strip (line e) \<noteq> []" "mapping s (pref_key (strip (line e))) = None"
  shows "keys (add_existing clk s e) = keys s @ [pref_key (strip (line e))]"
    and "\<exists>e'. mapping (add_existing clk s e) = (mapping s)(pref_key (strip (line e)) \<mapsto> e') \<and>
           line e' = strip (line e)"
  using assms by (auto simp: add_existing_def Let_def)

lemma scan_lines:
  assumes "wf_state s" "set seen = set (keys s)"
  shows "map (\<lambda>k. line (the (mapping (foldl (add_existing clk) s existing) k)))
             (keys (foldl (add_existing clk) s existing)) =
         map (\<lambda>k. line (the (mapping s k))) (keys s) @
         spec_first_per_key seen (filter (\<lambda>l. l \<noteq> []) (map (\<lambda>e. strip (line e)) existing))"
  using assms
proof (induction existing arbitrary: s seen)
  case Nil
  then show ?case by simp
next
  case (Cons e rest)
  let ?ln = "strip (line e)"
  let ?k = "pref_key ?ln"
  let ?s' = "add_existing clk s e"
  from Cons.prems(1) have dm: "dom (mapping s) = set (keys s)" by (simp add: wf_state_def)
  show ?case
  proof (cases "?ln = []")
    case True
    then have "?s' = s" by (simp add: add_existing_skip)
    with Cons.IH [OF Cons.prems] True show ?thesis by simp
  next
    case ne: False
    show ?thesis
    proof (cases "mapping s ?k")
      case (Some old)
      then have same: "?s' = s" by (simp add: add_existing_skip)
      from Some have "?k \<in> dom (mapping s)" by blast
      then have "?k \<in> set seen" using dm Cons.prems(2) by simp
      with Cons.IH [OF Cons.prems] ne same show ?thesis by simp
    next
      case None
      then have "?k \<notin> dom (mapping s)" by (simp add: domIff)
      then have fresh: "?k \<notin> set (keys s)" using dm by simp
      then have unseen: "?k \<notin> set seen" using Cons.prems(2) by simp
      have ks: "keys ?s' = keys s @ [?k]" by (rule add_existing_new(1) [OF ne None])
      obtain e' where m: "mapping ?s' = (mapping s)(?k \<mapsto> e')" and l: "line e' = ?ln"
        using add_existing_new(2) [OF ne None, of clk] by blast
      have wf': "wf_state ?s'" by (rule wf_add_existing [OF Cons.prems(1)])
      have seen': "set (?k # seen) = set (keys ?s')" using Cons.prems(2) by (simp add: ks)
      have "map (\<lambda>k. line (the (mapping ?s' k))) (keys s) =
            map (\<lambda>k. line (the (mapping s k))) (keys s)"
        by (rule map_cong [OF refl]) (use fresh in \<open>auto simp: m\<close>)
      then have step: "map (\<lambda>k. line (the (mapping ?s' k))) (keys ?s') =
            map (\<lambda>k. line (the (mapping s k))) (keys s) @ [?ln]"
        by (simp add: ks) (simp add: m l)
      from Cons.IH [OF wf' seen'] ne unseen show ?thesis
        by (simp add: step)
    qed
  qed
qed

lemma merged_order_Nil_stored:
  "\<exists>old. merged_order clk existing [] = Some old \<and> map line old = spec_stored_lines existing"
proof -
  have "map (\<lambda>k. line (the (mapping (scan_existing clk existing) k))) (keys (scan_existing clk existing)) =
        map (\<lambda>k. line (the (mapping init_state k))) (keys init_state) @ spec_stored_lines existing"
    unfolding scan_existing_def spec_stored_lines_def
    by (rule scan_lines [OF wf_init]) (simp add: init_state_def)
  then show ?thesis
    by (simp add: merged_order_Nil init_state_def o_def)
qed

lemma merge_shape_lines:
  "\<exists>kept newp.
     merged_order clk existing nls = Some (kept @ newp) \<and>
     map line kept =
       filter (\<lambda>l. pref_key l \<notin> set (map pref_key nls)) (spec_stored_lines existing) \<and>
     map line newp = spec_last_write_wins nls"
proof -
  obtain old newp where a: "merged_order clk existing [] = Some old"
    and b: "merged_order clk existing nls =
       Some (filter (\<lambda>e. pref_key (line e) \<notin> set (map pref_key nls)) old @ newp)"
    and c: "map line newp = spec_last_write_wins nls"
    using merged_order_shape by blast
  obtain old' where a': "merged_order clk existing [] = Some old'"
    and l: "map line old' = spec_stored_lines existing"
    using merged_order_Nil_stored by blast
  from a a' have "old' = old" by simp
  with l have lo: "map line old = spec_stored_lines existing" by simp
  have "filter (\<lambda>l. pref_key l \<notin> set (map pref_key nls)) (map line old) =
        map line (filter (\<lambda>e. pref_key (line e) \<notin> set (map pref_key nls)) old)"
    by (simp only: filter_map o_def)
  then have "map line (filter (\<lambda>e. pref_key (line e) \<notin> set (map pref_key nls)) old) =
        filter (\<lambda>l. pref_key l \<notin> set (map pref_key nls)) (spec_stored_lines existing)"
    by (simp only: lo)
  with b c show ?thesis by blast
qed

lemma sample_stored:
  "spec_stored_lines [\<lparr>line = '' Name is Al'', ts = 5\<rparr>, \<lparr>line = ''   '', ts = 7\<rparr>,
     \<lparr>line = ''pet is cat'', ts = 6\<rparr>, \<lparr>line = ''name is Bo'', ts = 8\<rparr>] =
   [''Name is Al'', ''pet is cat'']"
  by code_simp

text \<open>
  C2 as stated fails on the produced list: with limit 0 a new statement whose key a
  stored entry has leaves the empty list, and with limit 1 the first of two new
  statements with fresh keys is not kept.
\<close>

theorem merge_limit_drops_new_counterexample:
  "merge_prefs (\<lambda>n. 1000 + int n) 0 [\<lparr>line = ''pet is cat'', ts = 5\<rparr>] [''pet is dog''] = Some [] \<and>
   merge_prefs (\<lambda>n. 1000 + int n) 1 [] [''hue is red'', ''pet is dog''] =
     Some [\<lparr>line = ''pet is dog'', ts = 1001\<rparr>]"
  by code_simp

text \<open>
  C2, as the code has it: the list built before the limit applies is the stored lines
  (stripped, without blank ones, the first of each key) whose key no new line has, in
  their order, followed by one entry for each key of the batch, which carries the last
  line of the batch with that key, in the order of these last lines. So a new line with
  a stored key replaces the stored entry and moves to the newest end, a new line with a
  fresh key is appended there, and the last line of a batch is the newest entry. The
  produced list is the newest \<open>limit\<close> entries of that list, and under a limit of at
  least 1 its newest entry is the last line of the batch.
\<close>

theorem merge_result_shape:
  "0 \<le> limit \<Longrightarrow>
   \<exists>kept newp.
     map line kept =
       filter (\<lambda>l. pref_key l \<notin> set (map pref_key nls)) (spec_stored_lines existing) \<and>
     map line newp = spec_last_write_wins nls \<and>
     (nls \<noteq> [] \<longrightarrow> newp \<noteq> [] \<and> line (last newp) = last nls) \<and>
     merged_order clk existing nls = Some (kept @ newp) \<and>
     merge_prefs clk limit existing nls =
       Some (drop (length (kept @ newp) - nat limit) (kept @ newp)) \<and>
     (nls \<noteq> [] \<and> 1 \<le> limit \<longrightarrow>
        line (last (drop (length (kept @ newp) - nat limit) (kept @ newp))) = last nls)"
proof -
  assume lim: "0 \<le> limit"
  obtain kept newp where m: "merged_order clk existing nls = Some (kept @ newp)"
    and k: "map line kept =
       filter (\<lambda>l. pref_key l \<notin> set (map pref_key nls)) (spec_stored_lines existing)"
    and n: "map line newp = spec_last_write_wins nls"
    using merge_shape_lines by blast
  have newest: "newp \<noteq> [] \<and> line (last newp) = last nls" if "nls \<noteq> []"
  proof -
    from last_spec_last_write_wins [OF that] n
    have ne: "map line newp \<noteq> []" and la: "last (map line newp) = last nls" by simp_all
    from ne have "newp \<noteq> []" by simp
    then show ?thesis using la by (simp add: last_map)
  qed
  have res: "merge_prefs clk limit existing nls =
       Some (drop (length (kept @ newp) - nat limit) (kept @ newp))"
    by (simp only: merge_prefs_def m option.map enforce_limit_eq_drop [OF lim])
  have newest_kept: "line (last (drop (length (kept @ newp) - nat limit) (kept @ newp))) = last nls"
    if "nls \<noteq> [] \<and> 1 \<le> limit"
  proof -
    from that newest have ne: "newp \<noteq> []" and la: "line (last newp) = last nls" by simp_all
    have "length (kept @ newp) - nat limit < length (kept @ newp)"
      using ne that by (cases newp) auto
    then have "last (drop (length (kept @ newp) - nat limit) (kept @ newp)) = last (kept @ newp)"
      by (rule last_drop)
    then show ?thesis using ne la by simp
  qed
  show ?thesis
  proof (intro exI conjI)
    show "map line kept =
       filter (\<lambda>l. pref_key l \<notin> set (map pref_key nls)) (spec_stored_lines existing)"
      by (rule k)
    show "map line newp = spec_last_write_wins nls" by (rule n)
    show "nls \<noteq> [] \<longrightarrow> newp \<noteq> [] \<and> line (last newp) = last nls"
      using newest by blast
    show "merged_order clk existing nls = Some (kept @ newp)" by (rule m)
    show "merge_prefs clk limit existing nls =
       Some (drop (length (kept @ newp) - nat limit) (kept @ newp))"
      by (rule res)
    show "nls \<noteq> [] \<and> 1 \<le> limit \<longrightarrow>
        line (last (drop (length (kept @ newp) - nat limit) (kept @ newp))) = last nls"
      using newest_kept by blast
  qed
qed

lemma sample_kept:
  "filter (\<lambda>l. pref_key l \<notin> set (map pref_key [''hue is red'', ''NAME is Cy'', ''hue is blue'']))
     (spec_stored_lines [\<lparr>line = '' Name is Al'', ts = 5\<rparr>, \<lparr>line = ''pet is cat'', ts = 6\<rparr>,
        \<lparr>line = ''name is Bo'', ts = 8\<rparr>]) = [''pet is cat'']"
  by code_simp

lemma sample_batch:
  "spec_last_write_wins [''hue is red'', ''NAME is Cy'', ''hue is blue''] =
     [''NAME is Cy'', ''hue is blue'']"
  by code_simp

theorem merge_result_shape_witness:
  "(0::int) \<le> 2 \<and> [''hue is red'', ''NAME is Cy'', ''hue is blue''] \<noteq> [] \<and> (1::int) \<le> 2 \<and>
   (\<exists>kept newp.
      map line kept = [''pet is cat''] \<and>
      map line newp = [''NAME is Cy'', ''hue is blue''] \<and>
      merge_prefs (\<lambda>n. 1000 + int n) 2
        [\<lparr>line = '' Name is Al'', ts = 5\<rparr>, \<lparr>line = ''pet is cat'', ts = 6\<rparr>,
         \<lparr>line = ''name is Bo'', ts = 8\<rparr>]
        [''hue is red'', ''NAME is Cy'', ''hue is blue''] =
        Some (drop (length (kept @ newp) - nat 2) (kept @ newp)) \<and>
      line (last (drop (length (kept @ newp) - nat 2) (kept @ newp))) = ''hue is blue'')"
proof -
  have h: "(0::int) \<le> 2" by simp
  have b: "[''hue is red'', ''NAME is Cy'', ''hue is blue''] \<noteq> [] \<and> (1::int) \<le> 2" by simp
  from merge_result_shape [OF h, of "[''hue is red'', ''NAME is Cy'', ''hue is blue'']"
      "[\<lparr>line = '' Name is Al'', ts = 5\<rparr>, \<lparr>line = ''pet is cat'', ts = 6\<rparr>,
        \<lparr>line = ''name is Bo'', ts = 8\<rparr>]" "\<lambda>n. 1000 + int n"]
  obtain kept newp where
    k: "map line kept = [''pet is cat'']" and
    n: "map line newp = [''NAME is Cy'', ''hue is blue'']" and
    r: "merge_prefs (\<lambda>n. 1000 + int n) 2
        [\<lparr>line = '' Name is Al'', ts = 5\<rparr>, \<lparr>line = ''pet is cat'', ts = 6\<rparr>,
         \<lparr>line = ''name is Bo'', ts = 8\<rparr>]
        [''hue is red'', ''NAME is Cy'', ''hue is blue''] =
        Some (drop (length (kept @ newp) - nat 2) (kept @ newp))" and
    l: "[''hue is red'', ''NAME is Cy'', ''hue is blue''] \<noteq> [] \<and> (1::int) \<le> 2 \<longrightarrow>
        line (last (drop (length (kept @ newp) - nat 2) (kept @ newp))) =
        last [''hue is red'', ''NAME is Cy'', ''hue is blue'']"
    unfolding sample_kept sample_batch by (elim exE conjE) (rule that, assumption+)
  from l b have f: "line (last (drop (length (kept @ newp) - nat 2) (kept @ newp))) = ''hue is blue''"
    by simp
  have "\<exists>kept newp.
      map line kept = [''pet is cat''] \<and>
      map line newp = [''NAME is Cy'', ''hue is blue''] \<and>
      merge_prefs (\<lambda>n. 1000 + int n) 2
        [\<lparr>line = '' Name is Al'', ts = 5\<rparr>, \<lparr>line = ''pet is cat'', ts = 6\<rparr>,
         \<lparr>line = ''name is Bo'', ts = 8\<rparr>]
        [''hue is red'', ''NAME is Cy'', ''hue is blue''] =
        Some (drop (length (kept @ newp) - nat 2) (kept @ newp)) \<and>
      line (last (drop (length (kept @ newp) - nat 2) (kept @ newp))) = ''hue is blue''"
  proof (intro exI conjI)
    show "map line kept = [''pet is cat'']" by (rule k)
    show "map line newp = [''NAME is Cy'', ''hue is blue'']" by (rule n)
    show "merge_prefs (\<lambda>n. 1000 + int n) 2
        [\<lparr>line = '' Name is Al'', ts = 5\<rparr>, \<lparr>line = ''pet is cat'', ts = 6\<rparr>,
         \<lparr>line = ''name is Bo'', ts = 8\<rparr>]
        [''hue is red'', ''NAME is Cy'', ''hue is blue''] =
        Some (drop (length (kept @ newp) - nat 2) (kept @ newp))" by (rule r)
    show "line (last (drop (length (kept @ newp) - nat 2) (kept @ newp))) = ''hue is blue''"
      by (rule f)
  qed
  with h b show ?thesis by simp
qed

lemma sample_result:
  "merge_prefs (\<lambda>n. 1000 + int n) 2
        [\<lparr>line = '' Name is Al'', ts = 5\<rparr>, \<lparr>line = ''pet is cat'', ts = 6\<rparr>,
         \<lparr>line = ''name is Bo'', ts = 8\<rparr>]
        [''hue is red'', ''NAME is Cy'', ''hue is blue''] =
   Some [\<lparr>line = ''NAME is Cy'', ts = 1001\<rparr>, \<lparr>line = ''hue is blue'', ts = 1002\<rparr>]"
  by code_simp

subsection \<open>Submitting a statement again\<close>

text \<open>
  C5: let \<open>s\<close> be a statement line as the merge extracts them, and let the limit be at
  least 1. Merging \<open>s\<close> and then merging \<open>s\<close> again into the result leaves the set of
  keys as it was after the first merge, with \<open>s\<close> as the newest entry.
\<close>

theorem resubmit_idempotent:
  assumes "s \<in> set (new_lines raw)" "1 \<le> limit"
  shows "\<exists>r1 r2. merge_prefs clk limit existing [s] = Some r1 \<and>
           merge_prefs clk' limit r1 [s] = Some r2 \<and>
           set (map (\<lambda>e. pref_key (line e)) r2) = set (map (\<lambda>e. pref_key (line e)) r1) \<and>
           r2 \<noteq> [] \<and> line (last r2) = s"
proof -
  from assms(1) new_lines_clean have cl: "s \<noteq> []" "strip s = s" by blast+
  obtain r1 r2 where a: "merge_prefs clk limit existing [s] = Some r1"
    and b: "merge_prefs clk' limit r1 [s] = Some r2"
    and l: "map line r2 = map line r1" and ne: "r1 \<noteq> []" and la: "line (last r1) = s"
    using resubmit_lines [OF cl assms(2)] by blast
  have "map (\<lambda>e. pref_key (line e)) r2 = map pref_key (map line r2)" by (simp add: o_def)
  also have "\<dots> = map (\<lambda>e. pref_key (line e)) r1" by (simp add: l o_def)
  finally have ks: "map (\<lambda>e. pref_key (line e)) r2 = map (\<lambda>e. pref_key (line e)) r1" .
  have ne2: "r2 \<noteq> []" using l ne by auto
  have "line (last r2) = last (map line r2)" using ne2 by (simp add: last_map)
  also have "\<dots> = s" using ne la by (simp add: l last_map)
  finally have "line (last r2) = s" .
  with a b ks ne2 show ?thesis by (metis (no_types, lifting))
qed

lemma sample_new_lines: "new_lines [''  hue is red '', ''   ''] = [''hue is red'']"
  by code_simp

theorem resubmit_idempotent_witness:
  "''hue is red'' \<in> set (new_lines [''  hue is red '', ''   '']) \<and> (1::int) \<le> 1 \<and>
   (\<exists>r1 r2.
      merge_prefs (\<lambda>n. 1000 + int n) 1 [\<lparr>line = ''pet is cat'', ts = 5\<rparr>] [''hue is red''] = Some r1 \<and>
      merge_prefs (\<lambda>n. 2000 + int n) 1 r1 [''hue is red''] = Some r2 \<and>
      set (map (\<lambda>e. pref_key (line e)) r2) = set (map (\<lambda>e. pref_key (line e)) r1) \<and>
      r2 \<noteq> [] \<and> line (last r2) = ''hue is red'')"
proof -
  have h1: "''hue is red'' \<in> set (new_lines [''  hue is red '', ''   ''])"
    by (simp add: sample_new_lines)
  have h2: "(1::int) \<le> 1" by simp
  from resubmit_idempotent [OF h1 h2,
      of "\<lambda>n. 1000 + int n" "[\<lparr>line = ''pet is cat'', ts = 5\<rparr>]" "\<lambda>n. 2000 + int n"]
  show ?thesis using h1 h2 by blast
qed

subsection \<open>The normalized key\<close>

lemma find_sub_Some_D:
  "find_sub sep s = Some i \<Longrightarrow> \<exists>post. s = take i s @ sep @ post"
proof (induction s arbitrary: i)
  case Nil
  then show ?case by (simp split: if_splits)
next
  case (Cons c cs)
  show ?case
  proof (cases "startswith (c # cs) sep")
    case True
    then have "take (length sep) (c # cs) = sep" by (simp add: startswith_def)
    then have "c # cs = sep @ drop (length sep) (c # cs)"
      by (metis append_take_drop_id)
    moreover from True Cons.prems have "i = 0" by simp
    ultimately show ?thesis by (metis append_Nil take_0)
  next
    case False
    with Cons.prems obtain j where j: "find_sub sep cs = Some j" and i: "i = Suc j" by auto
    from Cons.IH [OF j] obtain post where "cs = take j cs @ sep @ post" by blast
    then have "c # cs = take i (c # cs) @ sep @ post" by (simp add: i)
    then show ?thesis by blast
  qed
qed

lemma startswith_append: "startswith (sep @ post) sep"
  by (simp add: startswith_def)

lemma find_sub_first:
  "find_sub sep s = Some i \<Longrightarrow> s = pre @ sep @ post \<Longrightarrow> i \<le> length pre"
proof (induction s arbitrary: i pre)
  case Nil
  then show ?case by (simp split: if_splits)
next
  case (Cons c cs)
  show ?case
  proof (cases "startswith (c # cs) sep")
    case True
    with Cons.prems(1) have "i = 0" by simp
    then show ?thesis by simp
  next
    case False
    with Cons.prems(1) obtain j where j: "find_sub sep cs = Some j" and i: "i = Suc j" by auto
    have "pre \<noteq> []" using False Cons.prems(2) startswith_append [of sep post] by auto
    then obtain p where p: "pre = c # p" using Cons.prems(2) by (cases pre) auto
    then have "cs = p @ sep @ post" using Cons.prems(2) by simp
    from Cons.IH [OF j this] show ?thesis by (simp add: i p)
  qed
qed

lemma find_sub_None_D:
  "find_sub sep s = None \<Longrightarrow> s \<noteq> pre @ sep @ post"
proof (induction s arbitrary: pre)
  case Nil
  then show ?case by (simp split: if_splits)
next
  case (Cons c cs)
  then have ns: "\<not> startswith (c # cs) sep" and none: "find_sub sep cs = None"
    by (auto split: if_splits)
  show ?case
  proof
    assume eq: "c # cs = pre @ sep @ post"
    have "pre \<noteq> []" using ns eq startswith_append [of sep post] by auto
    then obtain p where "pre = c # p" using eq by (cases pre) auto
    then have "cs = p @ sep @ post" using eq by simp
    with Cons.IH [OF none] show False by blast
  qed
qed

lemma lower_take: "lower ln = pre @ rest \<Longrightarrow> pre = lower (take (length pre) ln)"
  by (metis append_eq_conv_conj lower_def take_map)

text \<open>
  C3, as the code has it: the key of a line is the text before the first \<open>" is "\<close> of
  the lower-cased line, which is the lower-cased text of the line before that place,
  with the whitespace at its two ends removed; a line without \<open>" is "\<close> has the whole
  lower-cased line as its key.
\<close>

theorem pref_key_stripped_prefix:
  "(lower ln = pre @ '' is '' @ post \<and>
      \<not> (\<exists>pre' post'. length pre' < length pre \<and> lower ln = pre' @ '' is '' @ post')
      \<longrightarrow> pref_key ln = strip pre \<and> pre = lower (take (length pre) ln)) \<and>
   (\<not> (\<exists>pre' post'. lower ln = pre' @ '' is '' @ post') \<longrightarrow> pref_key ln = lower ln)"
proof (intro conjI impI)
  assume a: "lower ln = pre @ '' is '' @ post \<and>
      \<not> (\<exists>pre' post'. length pre' < length pre \<and> lower ln = pre' @ '' is '' @ post')"
  then have dec: "lower ln = pre @ '' is '' @ post"
    and least: "\<And>pre' post'. lower ln = pre' @ '' is '' @ post' \<Longrightarrow> length pre \<le> length pre'"
    by (auto simp: not_less)
  from dec find_sub_None_D [of "'' is ''" "lower ln" pre post]
  obtain i where i: "find_sub '' is '' (lower ln) = Some i" by (cases "find_sub '' is '' (lower ln)") auto
  have le: "i \<le> length pre" by (rule find_sub_first [OF i dec])
  from find_sub_Some_D [OF i] obtain post2 where
    dec2: "lower ln = take i (lower ln) @ '' is '' @ post2" by blast
  from least [OF dec2] have "length pre \<le> i" by simp
  with le have "i = length pre" by simp
  then have "take i (lower ln) = pre" by (simp add: dec)
  then show "pref_key ln = strip pre"
    by (simp add: pref_key_def contains_def split_head_def i Let_def)
  show "pre = lower (take (length pre) ln)" by (rule lower_take [OF dec])
next
  assume "\<not> (\<exists>pre' post'. lower ln = pre' @ '' is '' @ post')"
  then have "find_sub '' is '' (lower ln) = None"
    using find_sub_Some_D [of "'' is ''" "lower ln"]
    by (cases "find_sub '' is '' (lower ln)") auto
  then show "pref_key ln = lower ln"
    by (simp add: pref_key_def contains_def Let_def)
qed

lemma sample_first_is: "find_sub '' is '' (lower ''Name  is Al'') = Some 5"
  by code_simp

lemma sample_no_is: "find_sub '' is '' (lower ''Likes tea'') = None"
  by code_simp

lemma sample_lower: "lower ''Name  is Al'' = ''name '' @ '' is '' @ ''al''"
  by code_simp

theorem pref_key_stripped_prefix_witness:
  "lower ''Name  is Al'' = ''name '' @ '' is '' @ ''al'' \<and>
   \<not> (\<exists>pre' post'. length pre' < length ''name '' \<and>
          lower ''Name  is Al'' = pre' @ '' is '' @ post') \<and>
   pref_key ''Name  is Al'' = strip ''name '' \<and>
   \<not> (\<exists>pre' post'. lower ''Likes tea'' = pre' @ '' is '' @ post') \<and>
   pref_key ''Likes tea'' = lower ''Likes tea''"
proof -
  have first: "\<not> (\<exists>pre' post'. length pre' < length ''name '' \<and>
          lower ''Name  is Al'' = pre' @ '' is '' @ post')"
    using find_sub_first [OF sample_first_is] by fastforce
  have none: "\<not> (\<exists>pre' post'. lower ''Likes tea'' = pre' @ '' is '' @ post')"
    using find_sub_None_D [OF sample_no_is] by blast
  from pref_key_stripped_prefix [of "''Name  is Al''" "''name ''" "''al''"] sample_lower first
  have "pref_key ''Name  is Al'' = strip ''name ''" by blast
  moreover from pref_key_stripped_prefix [of "''Likes tea''" "[]" "[]"] none
  have "pref_key ''Likes tea'' = lower ''Likes tea''" by blast
  ultimately show ?thesis using sample_lower first none by blast
qed

text \<open>
  C3 as stated, without the removal of whitespace, fails for a line with two blanks
  before \<open>is\<close>: the first \<open>" is "\<close> is at index 5 and the text before it ends in a
  blank, which the key does not have.
\<close>

theorem pref_key_not_bare_prefix:
  "find_sub '' is '' (lower ''Name  is Al'') = Some 5 \<and>
   pref_key ''Name  is Al'' = ''name'' \<and>
   lower (take 5 ''Name  is Al'') = ''name '' \<and>
   pref_key ''Name  is Al'' \<noteq> lower (take 5 ''Name  is Al'')"
  by code_simp

section \<open>Properties of the credential bootstrap selector\<close>

text \<open>
  C7: with neither an API key nor an endpoint saved, the selector calls the prompt of
  the credential that the last-deleted marker names, and the API-key prompt when there
  is no marker (or one that names neither credential), in either mode.
\<close>

theorem both_missing_prompt:
  "falsy saved_key \<and> falsy saved_ep \<longrightarrow>
     (last_del = Some ''api_key'' \<longrightarrow>
        startup_prompt use_local saved_key saved_ep last_del = Some PromptApiKey) \<and>
     (last_del = Some ''server_endpoint'' \<longrightarrow>
        startup_prompt use_local saved_key saved_ep last_del = Some PromptEndpoint) \<and>
     (last_del \<noteq> Some ''api_key'' \<and> last_del \<noteq> Some ''server_endpoint'' \<longrightarrow>
        startup_prompt use_local saved_key saved_ep last_del = Some PromptApiKey)"
  by (simp add: startup_prompt_def)

theorem both_missing_prompt_witness:
  "falsy None \<and> falsy (Some []) \<and>
   startup_prompt False None (Some []) (Some ''api_key'') = Some PromptApiKey \<and>
   startup_prompt True None (Some []) (Some ''server_endpoint'') = Some PromptEndpoint \<and>
   startup_prompt False None (Some []) None = Some PromptApiKey"
  using both_missing_prompt [of None "Some []" "Some ''api_key''" False]
    both_missing_prompt [of None "Some []" "Some ''server_endpoint''" True]
    both_missing_prompt [of None "Some []" None False]
  by (simp add: falsy_def)

text \<open>
  C8 as stated fails: in local mode, with an API key saved and no endpoint, exactly one
  credential is missing and the selector calls no prompt.
\<close>

theorem one_missing_other_mode_counterexample:
  "\<not> falsy (Some ''sk-1'') \<and> falsy None \<and>
   startup_prompt True (Some ''sk-1'') None None = None"
  by (simp add: startup_prompt_def falsy_def)

text \<open>
  C8, as the code has it: with both credentials saved the selector calls no prompt; with
  exactly one missing it calls the prompt of the missing one when that is the credential
  of the active mode (the API key in local mode, the endpoint in server mode), and no
  prompt otherwise.
\<close>

theorem one_missing_prompt_by_mode:
  "(\<not> falsy saved_key \<and> \<not> falsy saved_ep \<longrightarrow>
      startup_prompt use_local saved_key saved_ep last_del = None) \<and>
   (falsy saved_key \<and> \<not> falsy saved_ep \<longrightarrow>
      startup_prompt use_local saved_key saved_ep last_del =
        (if use_local then Some PromptApiKey else None)) \<and>
   (\<not> falsy saved_key \<and> falsy saved_ep \<longrightarrow>
      startup_prompt use_local saved_key saved_ep last_del =
        (if use_local then None else Some PromptEndpoint))"
  by (simp add: startup_prompt_def)

theorem one_missing_prompt_by_mode_witness:
  "\<not> falsy (Some ''sk-1'') \<and> \<not> falsy (Some ''http://h/chat'') \<and> falsy None \<and>
   startup_prompt True (Some ''sk-1'') (Some ''http://h/chat'') None = None \<and>
   startup_prompt True None (Some ''http://h/chat'') None = Some PromptApiKey \<and>
   startup_prompt False None (Some ''http://h/chat'') None = None \<and>
   startup_prompt False (Some ''sk-1'') None None = Some PromptEndpoint \<and>
   startup_prompt True (Some ''sk-1'') None None = None"
  using one_missing_prompt_by_mode [of "Some ''sk-1''" "Some ''http://h/chat''" True None]
    one_missing_prompt_by_mode [of None "Some ''http://h/chat''" True None]
    one_missing_prompt_by_mode [of None "Some ''http://h/chat''" False None]
    one_missing_prompt_by_mode [of "Some ''sk-1''" None False None]
    one_missing_prompt_by_mode [of "Some ''sk-1''" None True None]
  by (simp add: falsy_def)

section \<open>Properties of the personality presets\<close>

text \<open>The Personality window sets the eight sliders to the eight values, in order.\<close>

lemma apply_preset_sets_all:
  "file_preset (personalities name) = Some (v0, v1, v2, v3, v4, v5, v6, v7) \<Longrightarrow>
   apply_preset (window_presets personalities) name s =
     \<lparr>friendliness = v0, professionalism = v1, profanity = v2, age = v3, gender = v4,
      humor = v5, sarcasm = v6, introversion = v7\<rparr>"
  by (simp add: apply_preset_def window_presets_def)

text \<open>So does the startup code for a built-in preset.\<close>

lemma startup_builtin_sets_all:
  "name \<noteq> [] \<Longrightarrow> map_of DEFAULT_PRESETS name = Some (v0, v1, v2, v3, v4, v5, v6, v7) \<Longrightarrow>
   startup_apply_preset (Some name) personalities s =
     \<lparr>friendliness = v0, professionalism = v1, profanity = v2, age = v3, gender = v4,
      humor = v5, sarcasm = v6, introversion = v7\<rparr>"
  by (simp add: startup_apply_preset_def)

text \<open>
  For a preset file the startup code leaves the gender slider alone and sets the
  friendliness slider to the fifth value.
\<close>

lemma startup_file_sets_wrong_slider:
  "name \<noteq> [] \<Longrightarrow> map_of DEFAULT_PRESETS name = None \<Longrightarrow>
   file_preset (personalities name) = Some (v0, v1, v2, v3, v4, v5, v6, v7) \<Longrightarrow>
   startup_apply_preset (Some name) personalities s =
     \<lparr>friendliness = v4, professionalism = v1, profanity = v2, age = v3, gender = gender s,
      humor = v5, sarcasm = v6, introversion = v7\<rparr>"
  by (simp add: startup_apply_preset_def)

text \<open>
  C9 fails at startup: with \<open>personalities/Calm.json\<close> holding
  \<open>[3, 2, 1, 45, 0, 1, 1, 0]\<close> and \<open>Calm\<close> the last selected preset, the startup code
  leaves friendliness at 0 and gender at its initial 1, where the Personality window,
  applying the same preset, sets friendliness to 3 and gender to 0.
\<close>

theorem startup_file_preset_misapplied:
  "startup_apply_preset (Some ''Calm'') [''Calm'' \<mapsto> BareList [3, 2, 1, 45, 0, 1, 1, 0]]
     initial_sliders =
     \<lparr>friendliness = 0, professionalism = 2, profanity = 1, age = 45, gender = 1,
      humor = 1, sarcasm = 1, introversion = 0\<rparr> \<and>
   apply_preset (window_presets [''Calm'' \<mapsto> BareList [3, 2, 1, 45, 0, 1, 1, 0]]) ''Calm''
     initial_sliders =
     \<lparr>friendliness = 3, professionalism = 2, profanity = 1, age = 45, gender = 0,
      humor = 1, sarcasm = 1, introversion = 0\<rparr>"
  by (simp add: startup_apply_preset_def apply_preset_def window_presets_def file_preset_def
      DEFAULT_PRESETS_def initial_sliders_def)

section \<open>Properties of \<open>save_settings\<close>\<close>

lemma store_or_pop_other: "k \<noteq> field \<Longrightarrow> store_or_pop field arg data k = data k"
  by (simp add: store_or_pop_def split: option.splits)

lemma store_or_pop_None: "store_or_pop field None data = data"
  by (simp add: store_or_pop_def)

lemma store_or_pop_field:
  "store_or_pop field (Some v) data field = (if v \<noteq> [] then Some (JStr v) else None)"
  by (simp add: store_or_pop_def)

lemma store_opt_other: "k \<noteq> field \<Longrightarrow> store_opt field arg data k = data k"
  by (simp add: store_opt_def split: option.splits)

lemma store_opt_None: "store_opt field None data = data"
  by (simp add: store_opt_def)

lemma record_deleted_other:
  "k \<noteq> ''last_credential_deleted'' \<Longrightarrow> k \<noteq> ''last_credential_deleted_ts'' \<Longrightarrow>
   record_deleted now arg data k = data k"
  by (simp add: record_deleted_def split: option.splits)

lemma record_deleted_None: "record_deleted now None data = data"
  by (simp add: record_deleted_def)

lemma record_deleted_set:
  "v \<noteq> [] \<Longrightarrow>
   record_deleted now (Some v) data ''last_credential_deleted'' = Some (JStr v) \<and>
   record_deleted now (Some v) data ''last_credential_deleted_ts'' = Some (JInt now)"
  by (simp add: record_deleted_def)

lemma save_settings_Inr:
  "load_data file = Inr data \<Longrightarrow>
   save_settings file now use_local api_key endpoint last_deleted hist pref model =
     Inr (store_opt ''ai_model'' (map_option JStr model)
         (store_opt ''pref_memory_lines'' (map_option JInt pref)
         (store_opt ''ai_history_lines'' (map_option JInt hist)
         (record_deleted now last_deleted
         (store_or_pop ''server_endpoint'' endpoint
         (store_or_pop ''openai_api_key'' api_key
         (data(''use_local_ai'' \<mapsto> JBool use_local))))))))"
  by (simp add: save_settings_def)

text \<open>A settings file that holds a JSON value other than an object is left as it is.\<close>

lemma save_settings_non_object:
  "save_settings (Parsed (JArr [JInt 1])) now use_local api_key endpoint last_deleted hist pref model
     = Inl TypeError"
  by (simp add: save_settings_def load_data_def)

text \<open>
  C10: when the settings file is missing, unreadable or holds an object (or a false
  value), \<open>save_settings\<close> writes a dictionary in which \<open>use_local_ai\<close> is the given
  flag, every field whose argument is \<open>None\<close> and every field that the function does not
  know has its stored value, an empty \<open>api_key\<close> or \<open>endpoint\<close> removes that field, and
  a non-empty \<open>last_deleted\<close> sets the marker and its timestamp.
\<close>

theorem save_settings_frame:
  assumes "load_data file = Inr data"
  shows "\<exists>data'.
     save_settings file now use_local api_key endpoint last_deleted hist pref model = Inr data' \<and>
     data' ''use_local_ai'' = Some (JBool use_local) \<and>
     (api_key = None \<longrightarrow> data' ''openai_api_key'' = data ''openai_api_key'') \<and>
     (endpoint = None \<longrightarrow> data' ''server_endpoint'' = data ''server_endpoint'') \<and>
     (last_deleted = None \<longrightarrow>
        data' ''last_credential_deleted'' = data ''last_credential_deleted'' \<and>
        data' ''last_credential_deleted_ts'' = data ''last_credential_deleted_ts'') \<and>
     (hist = None \<longrightarrow> data' ''ai_history_lines'' = data ''ai_history_lines'') \<and>
     (pref = None \<longrightarrow> data' ''pref_memory_lines'' = data ''pref_memory_lines'') \<and>
     (model = None \<longrightarrow> data' ''ai_model'' = data ''ai_model'') \<and>
     (\<forall>k. k \<notin> set settings_fields \<longrightarrow> data' k = data k) \<and>
     (api_key = Some [] \<longrightarrow> data' ''openai_api_key'' = None) \<and>
     (endpoint = Some [] \<longrightarrow> data' ''server_endpoint'' = None) \<and>
     (\<forall>v. last_deleted = Some v \<and> v \<noteq> [] \<longrightarrow>
        data' ''last_credential_deleted'' = Some (JStr v) \<and>
        data' ''last_credential_deleted_ts'' = Some (JInt now))"
proof -
  let ?d = "store_opt ''ai_model'' (map_option JStr model)
         (store_opt ''pref_memory_lines'' (map_option JInt pref)
         (store_opt ''ai_history_lines'' (map_option JInt hist)
         (record_deleted now last_deleted
         (store_or_pop ''server_endpoint'' endpoint
         (store_or_pop ''openai_api_key'' api_key
         (data(''use_local_ai'' \<mapsto> JBool use_local)))))))"
  have s: "save_settings file now use_local api_key endpoint last_deleted hist pref model = Inr ?d"
    by (rule save_settings_Inr [OF assms])
  have 1: "?d ''use_local_ai'' = Some (JBool use_local)"
    by (simp add: store_opt_other store_or_pop_other record_deleted_other)
  have 2: "api_key = None \<longrightarrow> ?d ''openai_api_key'' = data ''openai_api_key''"
    by (simp add: store_opt_other store_or_pop_other record_deleted_other store_or_pop_None)
  have 3: "endpoint = None \<longrightarrow> ?d ''server_endpoint'' = data ''server_endpoint''"
    by (simp add: store_opt_other store_or_pop_other record_deleted_other store_or_pop_None)
  have 4: "last_deleted = None \<longrightarrow>
        ?d ''last_credential_deleted'' = data ''last_credential_deleted'' \<and>
        ?d ''last_credential_deleted_ts'' = data ''last_credential_deleted_ts''"
    by (simp add: store_opt_other store_or_pop_other record_deleted_None)
  have 5: "hist = None \<longrightarrow> ?d ''ai_history_lines'' = data ''ai_history_lines''"
    by (simp add: store_opt_other store_or_pop_other record_deleted_other store_opt_None)
  have 6: "pref = None \<longrightarrow> ?d ''pref_memory_lines'' = data ''pref_memory_lines''"
    by (simp add: store_opt_other store_or_pop_other record_deleted_other store_opt_None)
  have 7: "model = None \<longrightarrow> ?d ''ai_model'' = data ''ai_model''"
    by (simp add: store_opt_other store_or_pop_other record_deleted_other store_opt_None)
  have 8: "\<forall>k. k \<notin> set settings_fields \<longrightarrow> ?d k = data k"
    by (simp add: settings_fields_def store_opt_other store_or_pop_other record_deleted_other)
  have 9: "api_key = Some [] \<longrightarrow> ?d ''openai_api_key'' = None"
    by (simp add: store_opt_other store_or_pop_other record_deleted_other store_or_pop_field)
  have 10: "endpoint = Some [] \<longrightarrow> ?d ''server_endpoint'' = None"
    by (simp add: store_opt_other store_or_pop_other record_deleted_other store_or_pop_field)
  have 11: "\<forall>v. last_deleted = Some v \<and> v \<noteq> [] \<longrightarrow>
        ?d ''last_credential_deleted'' = Some (JStr v) \<and>
        ?d ''last_credential_deleted_ts'' = Some (JInt now)"
    by (simp add: store_opt_other record_deleted_set)
  from s 1 2 3 4 5 6 7 8 9 10 11 show ?thesis by blast
qed

lemma sample_settings:
  "load_data (Parsed (JObj [(''openai_api_key'', JStr ''sk-1''), (''ai_model'', JStr ''gpt-4o'')])) =
     Inr (map_of (rev [(''openai_api_key'', JStr ''sk-1''), (''ai_model'', JStr ''gpt-4o'')]))"
  by (simp add: load_data_def)

theorem save_settings_frame_witness:
  "\<exists>data'.
     save_settings (Parsed (JObj [(''openai_api_key'', JStr ''sk-1''), (''ai_model'', JStr ''gpt-4o'')]))
       1700 False (Some []) None (Some ''api_key'') None None None = Inr data' \<and>
     data' ''use_local_ai'' = Some (JBool False) \<and>
     data' ''openai_api_key'' = None \<and>
     data' ''ai_model'' = Some (JStr ''gpt-4o'') \<and>
     data' ''last_credential_deleted'' = Some (JStr ''api_key'') \<and>
     data' ''last_credential_deleted_ts'' = Some (JInt 1700)"
  using save_settings_frame [OF sample_settings, of 1700 False "Some []" None "Some ''api_key''" None None None]
  by auto

end
